theory Spec2Isabelle
  imports Main
begin

section \<open>MappingScript.py: MagmaSoft stress tables to an Optistruct INISTRS block\<close>

text \<open>
  The script reads six two-column tables (element identifier, stress component), merges
  them on the element identifier, and writes a fixed-width text block: one header line,
  and for every merged row an ELEM line and a VALUE line.

  This theory embeds the script function by function.  The script's own code
  (\<open>file_names\<close>, the two loops, \<open>format_field\<close>, the assembly of \<open>output_lines\<close> and the
  final \<open>"\n".join\<close>) is translated from the source.  The three calls into the pandas
  library, \<open>pd.read_csv\<close>, \<open>DataFrame.merge\<close> and \<open>DataFrame.iterrows\<close>, are modelled after
  the library's behaviour for exactly the arguments the script passes.
\<close>

subsection \<open>Values and errors\<close>

text \<open>
  \<open>format_field\<close> dispatches on the run-time type of its argument with
  \<open>isinstance\<close>: \<open>str\<close>, \<open>int\<close>, \<open>float\<close>, anything else.  The type of floats is the
  parameter \<open>'f\<close>; \<open>PyOther\<close> stands for a value of any further type.
\<close>

datatype 'f pyvalue = PyStr string | PyInt int | PyFloat 'f | PyOther

datatype error = ValueError | ParserError | IndexError

text \<open>
  What the script uses of a float: the comparison \<open>value < 0\<close> and the rendering that
  the format specification \<open>8\<close> pads, that is \<open>format(value, '')\<close>, the same text as
  \<open>str(value)\<close>.  Both are parameters of the model, so that every theorem holds for any
  float type and any rendering.
\<close>

record 'f float_ops =
  below_zero :: "'f \<Rightarrow> bool"
  rendering :: "'f \<Rightarrow> string"

subsection \<open>Python's string formatting\<close>

text \<open>\<open>f"{s:<8}"\<close> and \<open>f"{s:>8}"\<close>: the width is a minimum, a longer text is kept whole.\<close>

definition ljust :: "nat \<Rightarrow> string \<Rightarrow> string" where
  "ljust n s = s @ replicate (n - length s) (CHR '' '')"

definition rjust :: "nat \<Rightarrow> string \<Rightarrow> string" where
  "rjust n s = replicate (n - length s) (CHR '' '') @ s"

text \<open>\<open>str\<close> of a Python \<open>int\<close>: decimal digits, with a leading minus sign when negative.\<close>

definition digit :: "nat \<Rightarrow> char" where
  "digit d = ''0123456789'' ! d"

fun str_nat :: "nat \<Rightarrow> string" where
  "str_nat n = (if n < 10 then [digit n] else str_nat (n div 10) @ [digit (n mod 10)])"

declare str_nat.simps [simp del]

definition str_int :: "int \<Rightarrow> string" where
  "str_int i = (if i < 0 then CHR ''-'' # str_nat (nat (- i)) else str_nat (nat i))"

subsection \<open>\<open>format_field\<close>\<close>

text \<open>
  The function of the source, branch by branch.  For a float both branches of
  \<open>value < 0\<close> build \<open>f"{value:8}"\<close> (a number is right-aligned by default) and cut
  it to its first 8 characters when it is longer.  The last branch raises \<open>ValueError\<close>.
\<close>

fun format_field :: "'f float_ops \<Rightarrow> 'f pyvalue \<Rightarrow> error + string" where
  "format_field ops (PyStr v) = Inr (ljust 8 v)"
| "format_field ops (PyInt v) = Inr (rjust 8 (str_int v))"
| "format_field ops (PyFloat v) =
     (if below_zero ops v then
        (let formatted = rjust 8 (rendering ops v)
         in Inr (if length formatted > 8 then take 8 formatted else formatted))
      else
        (let formatted = rjust 8 (rendering ops v)
         in Inr (if length formatted > 8 then take 8 formatted else formatted)))"
| "format_field ops PyOther = Inl ValueError"

subsection \<open>Reading an integer field back\<close>

text \<open>
  The script has no parser for its own output; the round trip of the specification
  ("parsing the resulting 8-character field back as an integer", ignoring the padding
  spaces) is stated against this reader, which follows the specification's words: skip
  the padding spaces, accept an optional minus sign, then one or more decimal digits.
\<close>

definition digit_val :: "char \<Rightarrow> nat option" where
  "digit_val c = map_of (zip ''0123456789'' [0, 1, 2, 3, 4, 5, 6, 7, 8, 9]) c"

fun digits_value :: "nat \<Rightarrow> string \<Rightarrow> nat option" where
  "digits_value acc [] = Some acc"
| "digits_value acc (c # cs) =
     (case digit_val c of None \<Rightarrow> None | Some d \<Rightarrow> digits_value (10 * acc + d) cs)"

definition parse_digits :: "string \<Rightarrow> nat option" where
  "parse_digits s = (if s = [] then None else digits_value 0 s)"

definition parse_int_field :: "string \<Rightarrow> int option" where
  "parse_int_field field =
     (case dropWhile (\<lambda>c. c = CHR '' '') field of
        [] \<Rightarrow> None
      | c # cs \<Rightarrow>
          (if c = CHR ''-'' then map_option (\<lambda>n. - int n) (parse_digits cs)
           else map_option int (parse_digits (c # cs))))"

subsection \<open>Data frames and the merge\<close>

text \<open>
  A frame read from one file has the columns \<open>ELEM\<close> and \<open>COMP_xx\<close>; it is the list of
  its rows, in file order.  \<open>combined_data\<close> has the column \<open>ELEM\<close> and the component
  columns merged so far, in the order they were merged.  Column names are positional in
  the model.

  Every column has one dtype, and a cell carries the dtype of its column: \<open>I64\<close> in an
  \<open>int64\<close> column, \<open>F64\<close> in a \<open>float64\<close> column (NaN, a missing value, is a float), and
  \<open>Obj\<close> in an \<open>object\<close> column, whose cells hold Python values (a text, the float NaN,
  and so on; \<open>True\<close> and \<open>False\<close> are the integers 1 and 0 for \<open>format_field\<close>).  Which
  dtype \<open>pd.read_csv\<close> gives a component column depends on the text of its cells: all
  written as integers gives \<open>int64\<close>, all numbers gives \<open>float64\<close>, anything else
  \<open>object\<close>.

  The column \<open>ELEM\<close> is an \<open>int64\<close> column in the model, as the element identifier of
  the specification is an integer; a source in which some identifier is missing or is
  not written as an integer is outside the model of the merge and of the output loop.
\<close>

datatype 'f cell = is_I64: I64 int | is_F64: F64 'f | is_Obj: Obj "'f pyvalue"

type_synonym 'f frame = "(int \<times> 'f cell) list"

type_synonym 'f wide = "(int \<times> 'f cell list) list"

text \<open>
  \<open>left.merge(right, on="ELEM")\<close> with pandas' defaults (\<open>how="inner"\<close>, \<open>sort=False\<close>,
  \<open>validate=None\<close>): every row of \<open>left\<close>, in the order of \<open>left\<close>, is paired with every
  row of \<open>right\<close> that has the same \<open>ELEM\<close>, in the order of \<open>right\<close>; a left row without a
  partner is dropped; nothing is checked about repeated keys.  The component column of
  \<open>right\<close> is appended after the columns of \<open>left\<close>.
\<close>

definition merge :: "'f wide \<Rightarrow> 'f frame \<Rightarrow> 'f wide" where
  "merge left right =
     concat (map (\<lambda>(elem, comps).
                    map (\<lambda>(_, v). (elem, comps @ [v]))
                        (filter (\<lambda>(e, _). e = elem) right))
                 left)"

subsection \<open>The rows of \<open>iterrows\<close>\<close>

text \<open>
  \<open>combined_data.iterrows()\<close> gives each row as a Series, which has a single dtype for
  all its values, \<open>ELEM\<close> included: the common dtype of the columns.  That is \<open>object\<close>
  when some column is, else \<open>float64\<close> when some column is, else \<open>int64\<close>.
\<close>

datatype dtype = Int64 | Float64 | Object

definition row_dtype :: "'f cell list \<Rightarrow> dtype" where
  "row_dtype comps =
     (if list_ex is_Obj comps then Object
      else if list_ex is_F64 comps then Float64
      else Int64)"

text \<open>
  In a \<open>float64\<close> row the element identifier has become the nearest double (ties to the
  even mantissa), and \<open>int(row["ELEM"])\<close> is the integer value of that double:
  \<open>float64_int\<close>, which keeps the 53 leading bits of the magnitude and rounds the rest.
  It is exact, and raises nothing, for every \<open>int64\<close>.  In an \<open>int64\<close> row
  \<open>row["ELEM"]\<close> is a \<open>numpy.int64\<close> and in an \<open>object\<close> row a Python \<open>int\<close>, and \<open>int\<close>
  of either is the identifier itself.
\<close>

fun bit_length :: "nat \<Rightarrow> nat" where
  "bit_length n = (if n = 0 then 0 else Suc (bit_length (n div 2)))"

declare bit_length.simps [simp del]

definition float64_int :: "int \<Rightarrow> int" where
  "float64_int i =
     (let n = nat \<bar>i\<bar>;
          e = bit_length n - 53;
          q = n div 2 ^ e;
          r = n mod 2 ^ e;
          m = (if 2 ^ e < 2 * r \<or> (2 * r = 2 ^ e \<and> odd q) then q + 1 else q)
      in sgn i * int (m * 2 ^ e))"

definition elem_int :: "int \<times> 'f cell list \<Rightarrow> int" where
  "elem_int row =
     (if row_dtype (snd row) = Float64 then float64_int (fst row) else fst row)"

text \<open>
  \<open>row[1:].values\<close>, the component values as \<open>format_field\<close> receives them.  In an
  \<open>int64\<close> row they are \<open>numpy.int64\<close> values, which are neither \<open>str\<close>, \<open>int\<close> nor
  \<open>float\<close>.  In a \<open>float64\<close> row they are \<open>numpy.float64\<close> values, which are \<open>float\<close>s; the
  cells of an integer column have been converted, and \<open>astype\<close> is that conversion of
  an \<open>int64\<close> to a float, a parameter like the float type.  In an \<open>object\<close> row every
  cell is boxed: an \<open>int64\<close> as a Python \<open>int\<close>, a \<open>float64\<close> as a Python \<open>float\<close>.
\<close>

fun float64_value :: "(int \<Rightarrow> 'f) \<Rightarrow> 'f cell \<Rightarrow> 'f pyvalue" where
  "float64_value astype (I64 i) = PyFloat (astype i)"
| "float64_value astype (F64 x) = PyFloat x"
| "float64_value astype (Obj v) = v"

fun object_value :: "'f cell \<Rightarrow> 'f pyvalue" where
  "object_value (I64 i) = PyInt i"
| "object_value (F64 x) = PyFloat x"
| "object_value (Obj v) = v"

definition series_values :: "(int \<Rightarrow> 'f) \<Rightarrow> 'f cell list \<Rightarrow> 'f pyvalue list" where
  "series_values astype comps =
     (case row_dtype comps of
        Int64 \<Rightarrow> map (\<lambda>c. PyOther) comps
      | Float64 \<Rightarrow> map (float64_value astype) comps
      | Object \<Rightarrow> map object_value comps)"

text \<open>What the body of the output loop reads of a row: the two expressions above.\<close>

definition row_values :: "(int \<Rightarrow> 'f) \<Rightarrow> int \<times> 'f cell list \<Rightarrow> int \<times> 'f pyvalue list" where
  "row_values astype row = (elem_int row, series_values astype (snd row))"

definition iterrows :: "(int \<Rightarrow> 'f) \<Rightarrow> 'f wide \<Rightarrow> (int \<times> 'f pyvalue list) list" where
  "iterrows astype rows = map (row_values astype) rows"

subsection \<open>The script, top to bottom\<close>

definition file_names :: "string list" where
  "file_names =
     [''StressE_TensorX_Ambient_MPa.fem'',
      ''StressE_TensorY_Ambient_MPa.fem'',
      ''StressE_TensorY_Ambient_MPa.fem'',
      ''StressE_TensorXY_c8_Ambient_MPa.fem'',
      ''StressE_TensorXZ_c8_Ambient_MPa.fem'',
      ''StressE_TensorXZ_c8_Ambient_MPa.fem'']"

definition components :: "string list" where
  "components = [''XX'', ''YY'', ''ZZ'', ''XY'', ''YZ'', ''ZX'']"

text \<open>
  The first loop.  \<open>read\<close> is what \<open>pd.read_csv\<close> returns for a file name (the file
  system is fixed during a run), an error when it raises; the loop stops at the first
  error.
\<close>

fun read_all :: "(string \<Rightarrow> error + 'f frame) \<Rightarrow> (string \<times> string) list \<Rightarrow> error + 'f frame list" where
  "read_all read [] = Inr []"
| "read_all read ((file, label) # rest) =
     (case read file of
        Inl e \<Rightarrow> Inl e
      | Inr df \<Rightarrow> (case read_all read rest of Inl e \<Rightarrow> Inl e | Inr dfs \<Rightarrow> Inr (df # dfs)))"

definition data_frames :: "(string \<Rightarrow> error + 'f frame) \<Rightarrow> error + 'f frame list" where
  "data_frames read = read_all read (zip file_names components)"

text \<open>
  The second loop: \<open>data_frames[0][["ELEM"]].copy()\<close>, then one merge per frame, the
  first frame included.  \<open>data_frames[0]\<close> raises \<open>IndexError\<close> on an empty list.
\<close>

definition combined_data :: "'f frame list \<Rightarrow> error + 'f wide" where
  "combined_data dfs =
     (case dfs of
        [] \<Rightarrow> Inl IndexError
      | df0 # _ \<Rightarrow> Inr (foldl merge (map (\<lambda>(elem, _). (elem, [])) df0) dfs))"

text \<open>
  A sum \<open>a + b + ...\<close> of calls that may raise: the operands are evaluated from left to
  right and the first exception ends the evaluation.
\<close>

fun concat_fields :: "(error + string) list \<Rightarrow> error + string" where
  "concat_fields [] = Inr []"
| "concat_fields (f # fs) =
     (case f of
        Inl e \<Rightarrow> Inl e
      | Inr s \<Rightarrow> (case concat_fields fs of Inl e \<Rightarrow> Inl e | Inr t \<Rightarrow> Inr (s @ t)))"

definition header_line :: "'f float_ops \<Rightarrow> error + string" where
  "header_line ops =
     concat_fields
       [format_field ops (PyStr ''INISTRS''),
        format_field ops (PyStr ''100''),
        format_field ops (PyStr []),
        format_field ops (PyStr ''0'')]"

text \<open>
  The two lines of the loop body, for a row given by what the body reads of it: the
  Python \<open>int\<close> that \<open>int(row["ELEM"])\<close> returned, and the values \<open>row[1:].values\<close>.
\<close>

definition elem_line :: "'f float_ops \<Rightarrow> int \<times> 'f pyvalue list \<Rightarrow> error + string" where
  "elem_line ops row =
     concat_fields
       [format_field ops (PyStr []),
        format_field ops (PyStr ''ELEM''),
        format_field ops (PyInt (fst row))]"

definition value_line :: "'f float_ops \<Rightarrow> int \<times> 'f pyvalue list \<Rightarrow> error + string" where
  "value_line ops row =
     concat_fields
       ([format_field ops (PyStr []),
         format_field ops (PyStr ''VALUE'')]
        @ map (\<lambda>value. format_field ops value) (snd row))"

text \<open>The third loop, over the rows of \<open>iterrows\<close>, two lines for each row.\<close>

fun record_lines :: "'f float_ops \<Rightarrow> (int \<times> 'f pyvalue list) list \<Rightarrow> error + string list" where
  "record_lines ops [] = Inr []"
| "record_lines ops (row # rows) =
     (case elem_line ops row of
        Inl e \<Rightarrow> Inl e
      | Inr el \<Rightarrow>
          (case value_line ops row of
             Inl e \<Rightarrow> Inl e
           | Inr vl \<Rightarrow>
               (case record_lines ops rows of
                  Inl e \<Rightarrow> Inl e
                | Inr ls \<Rightarrow> Inr (el # vl # ls))))"

definition output_lines :: "'f float_ops \<Rightarrow> (int \<Rightarrow> 'f) \<Rightarrow> 'f wide \<Rightarrow> error + string list" where
  "output_lines ops astype rows =
     (case header_line ops of
        Inl e \<Rightarrow> Inl e
      | Inr h \<Rightarrow>
          (case record_lines ops (iterrows astype rows) of
             Inl e \<Rightarrow> Inl e
           | Inr ls \<Rightarrow> Inr (h # ls)))"



subsection \<open>The reader\<close>








subsection \<open>A concrete float type for running the model\<close>

text \<open>
  For concrete runs a float is given by its rendering (such as \<open>-12.345\<close>); the
  rendering begins with a minus sign exactly when the value is below zero.  The float
  of an integer is rendered as the integer followed by \<open>.0\<close> as long as the float is
  below \<open>10\<^sup>1\<^sup>6\<close> in magnitude; the rendering of a larger one has an exponent and is left
  unspecified here.
\<close>

definition literal_ops :: "string float_ops" where
  "literal_ops = \<lparr>below_zero = (\<lambda>s. take 1 s = ''-''), rendering = (\<lambda>s. s)\<rparr>"

definition literal_astype :: "int \<Rightarrow> string" where
  "literal_astype i =
     (if \<bar>float64_int i\<bar> < 10000000000000000 then str_int (float64_int i) @ ''.0''
      else undefined)"

section \<open>Fixed-width fields\<close>

lemma length_ljust: "length (ljust n s) = max n (length s)"
  by (simp add: ljust_def)

lemma length_rjust: "length (rjust n s) = max n (length s)"
  by (simp add: rjust_def)

lemma rjust_long: "n \<le> length s \<Longrightarrow> rjust n s = s"
  by (simp add: rjust_def)

lemma str_nat_small: "n < 10 \<Longrightarrow> str_nat n = [digit n]"
  by (subst str_nat.simps) simp

lemma str_nat_big: "\<not> n < 10 \<Longrightarrow> str_nat n = str_nat (n div 10) @ [digit (n mod 10)]"
  by (subst str_nat.simps) simp

lemmas str_int_eval = str_int_def str_nat_small str_nat_big digit_def

lemma digit_val_digit: "d < 10 \<Longrightarrow> digit_val (digit d) = Some d"
proof -
  assume "d < 10"
  then have "d \<in> {0, 1, 2, 3, 4, 5, 6, 7, 8, 9}" by auto
  then show ?thesis
    by (auto simp: digit_def digit_val_def)
qed

lemma digit_not_space: "d < 10 \<Longrightarrow> digit d \<noteq> CHR '' '' \<and> digit d \<noteq> CHR ''-''"
proof -
  assume "d < 10"
  then have "d \<in> {0, 1, 2, 3, 4, 5, 6, 7, 8, 9}" by auto
  then show ?thesis
    by (auto simp: digit_def)
qed

lemma digits_value_append:
  "digits_value acc (xs @ ys) =
     (case digits_value acc xs of None \<Rightarrow> None | Some a \<Rightarrow> digits_value a ys)"
  by (induction xs arbitrary: acc) (auto split: option.splits)

lemma digits_value_str_nat: "digits_value 0 (str_nat n) = Some n"
proof (induction n rule: str_nat.induct)
  case (1 n)
  show ?case
  proof (cases "n < 10")
    case True
    then show ?thesis
      by (simp add: str_nat_small digit_val_digit)
  next
    case False
    then have "digits_value 0 (str_nat (n div 10)) = Some (n div 10)"
      using "1.IH" by simp
    then show ?thesis
      using False by (simp add: str_nat_big digits_value_append digit_val_digit)
  qed
qed

lemma str_nat_not_Nil: "str_nat n \<noteq> []"
  by (subst str_nat.simps) simp

lemma hd_str_nat: "hd (str_nat n) \<noteq> CHR '' '' \<and> hd (str_nat n) \<noteq> CHR ''-''"
proof (induction n rule: str_nat.induct)
  case (1 n)
  show ?case
  proof (cases "n < 10")
    case True
    then show ?thesis
      by (simp add: str_nat_small digit_not_space)
  next
    case False
    then show ?thesis
      using "1.IH" str_nat_not_Nil [of "n div 10"]
      by (simp add: str_nat_big)
  qed
qed

lemma parse_digits_str_nat: "parse_digits (str_nat n) = Some n"
  by (simp add: parse_digits_def str_nat_not_Nil digits_value_str_nat)

lemma dropWhile_rjust:
  "s \<noteq> [] \<Longrightarrow> hd s \<noteq> CHR '' '' \<Longrightarrow> dropWhile (\<lambda>c. c = CHR '' '') (rjust n s) = s"
  by (cases s) (simp_all add: rjust_def dropWhile_append3)

lemma parse_int_field_rjust: "parse_int_field (rjust n (str_int i)) = Some i"
proof (cases "i < 0")
  case True
  have "dropWhile (\<lambda>c. c = CHR '' '') (rjust n (str_int i)) = CHR ''-'' # str_nat (nat (- i))"
    using True by (simp add: str_int_def dropWhile_rjust)
  then show ?thesis
    using True by (simp add: parse_int_field_def parse_digits_str_nat)
next
  case False
  obtain c cs where cs: "str_nat (nat i) = c # cs"
    using str_nat_not_Nil by (cases "str_nat (nat i)") auto
  then have c: "c \<noteq> CHR '' ''" "c \<noteq> CHR ''-''"
    using hd_str_nat [of "nat i"] by simp_all
  have "dropWhile (\<lambda>c. c = CHR '' '') (rjust n (str_int i)) = c # cs"
    using False cs c by (simp add: str_int_def dropWhile_rjust)
  moreover have "parse_digits (c # cs) = Some (nat i)"
    using parse_digits_str_nat [of "nat i"] cs by simp
  ultimately show ?thesis
    using False c by (simp add: parse_int_field_def)
qed

lemma format_field_PyFloat:
  "format_field ops (PyFloat v) = Inr (take 8 (rjust 8 (rendering ops v)))"
  by (simp add: Let_def length_rjust)

lemma elem_line_eq:
  "elem_line ops row = Inr (replicate 8 (CHR '' '') @ ''ELEM    '' @ rjust 8 (str_int (fst row)))"
  by (simp add: elem_line_def ljust_def eval_nat_numeral)

lemma header_line_eq: "header_line ops = Inr ''INISTRS 100             0       ''"
  by (simp add: header_line_def ljust_def eval_nat_numeral)

text \<open>
  Claim C2.  For every float, \<open>format_field\<close> returns (it raises nothing) a cell of
  exactly 8 characters: a rendering of exactly 8 characters is returned as it is, a
  longer one is cut to its first 8 characters with no rounding, a shorter one is padded
  with leading spaces to width 8.
\<close>

theorem decimal_field_width:
  "\<exists>cell. format_field ops (PyFloat v) = Inr cell \<and> length cell = 8
     \<and> (length (rendering ops v) = 8 \<longrightarrow> cell = rendering ops v)
     \<and> (length (rendering ops v) > 8 \<longrightarrow> cell = take 8 (rendering ops v))
     \<and> (length (rendering ops v) < 8 \<longrightarrow>
           cell = replicate (8 - length (rendering ops v)) (CHR '' '') @ rendering ops v)"
  unfolding format_field_PyFloat by (auto simp: length_rjust rjust_def)

theorem decimal_field_width_witness:
  "length (rendering literal_ops ''-12.3456'') = 8
   \<and> format_field literal_ops (PyFloat ''-12.3456'') = Inr ''-12.3456''
   \<and> length (rendering literal_ops ''123456789.125'') > 8
   \<and> format_field literal_ops (PyFloat ''123456789.125'') = Inr ''12345678''
   \<and> length (rendering literal_ops ''1.5'') < 8
   \<and> format_field literal_ops (PyFloat ''1.5'') = Inr ''     1.5''"
  using decimal_field_width [of literal_ops "''-12.3456''"]
    decimal_field_width [of literal_ops "''123456789.125''"]
    decimal_field_width [of literal_ops "''1.5''"]
  by (simp add: literal_ops_def rjust_def eval_nat_numeral)

text \<open>
  Claim C8.  An integer whose decimal rendering has at most 8 characters is formatted
  as a field of exactly 8 characters, and reading that field back as an integer,
  ignoring the padding spaces, gives the integer again.
\<close>

theorem integer_field_round_trip:
  "length (str_int n) \<le> 8 \<Longrightarrow>
     \<exists>field. format_field ops (PyInt n) = Inr field \<and> length field = 8
       \<and> parse_int_field field = Some n"
  by (simp add: length_rjust parse_int_field_rjust)

theorem integer_field_round_trip_witness:
  "length (str_int (-1234567)) \<le> 8
   \<and> format_field literal_ops (PyInt (-1234567)) = Inr ''-1234567''
   \<and> parse_int_field ''-1234567'' = Some (-1234567)"
proof -
  have s: "str_int (-1234567) = ''-1234567''" by (simp add: str_int_eval)
  have h: "length (str_int (-1234567)) \<le> 8" by (simp add: s)
  show ?thesis
    using integer_field_round_trip [OF h, of literal_ops] by (simp add: s rjust_def)
qed

text \<open>
  Claim C10.  An integer is never cut: when its decimal rendering, sign included, is
  longer than 8 characters, \<open>format_field\<close> returns the whole rendering, and the ELEM
  line of such an element identifier is longer than its three 8-character columns.
\<close>

theorem integer_field_not_truncated:
  "8 < length (str_int n) \<Longrightarrow>
     format_field ops (PyInt n) = Inr (str_int n)
     \<and> (\<exists>line. elem_line ops (n, comps) = Inr line
           \<and> line = replicate 8 (CHR '' '') @ ''ELEM    '' @ str_int n
           \<and> 24 < length line)"
  by (simp add: elem_line_eq rjust_long)

theorem integer_field_not_truncated_witness:
  "8 < length (str_int 123456789)
   \<and> format_field literal_ops (PyInt 123456789) = Inr ''123456789''
   \<and> elem_line literal_ops (123456789, [PyFloat ''1.5'']) = Inr ''        ELEM    123456789''"
proof -
  have s: "str_int 123456789 = ''123456789''" by (simp add: str_int_eval)
  have h: "8 < length (str_int 123456789)" by (simp add: s)
  show ?thesis
    using integer_field_not_truncated [OF h, of literal_ops "[PyFloat ''1.5'']"]
    by (simp add: s eval_nat_numeral)
qed

section \<open>The header line\<close>

text \<open>
  Claim C4, as stated, has the sub-case identifier \<open>100\<close> right-justified under the
  integer rule.  The script passes the text \<open>"100"\<close>, so the field is left-justified:
  the header is neither of the two lines the claim describes (with the last field
  \<open>0\<close> bare, or padded).
\<close>

theorem header_subcase_right_justified_counterexample:
  "header_line literal_ops \<noteq> Inr (ljust 8 ''INISTRS'' @ rjust 8 ''100'' @ ljust 8 [] @ ''0'')
   \<and> header_line literal_ops
       \<noteq> Inr (ljust 8 ''INISTRS'' @ rjust 8 ''100'' @ ljust 8 [] @ ljust 8 ''0'')"
  by (simp add: header_line_eq ljust_def rjust_def eval_nat_numeral)

text \<open>
  Claim C4, amended.  The header is four fields with no separators, each formatted as
  a text token, that is left-justified and padded with spaces to 8 characters:
  \<open>INISTRS\<close>, \<open>100\<close>, an empty field and \<open>0\<close>; 32 characters in all.
\<close>

theorem header_line_layout:
  "header_line ops = Inr (ljust 8 ''INISTRS'' @ ljust 8 ''100'' @ ljust 8 [] @ ljust 8 ''0'')
   \<and> header_line ops = Inr ''INISTRS 100             0       ''"
  by (simp add: header_line_eq ljust_def eval_nat_numeral)

section \<open>The output block\<close>

lemma concat_fields_Inr: "concat_fields (map Inr cells) = Inr (concat cells)"
  by (induction cells) simp_all

lemma concat_fields_result:
  "concat_fields fs = Inr s \<Longrightarrow> \<exists>cells. fs = map Inr cells \<and> s = concat cells"
proof (induction fs arbitrary: s)
  case Nil
  then show ?case by simp
next
  case (Cons f fs)
  from Cons.prems obtain a t where f: "f = Inr a" and t: "concat_fields fs = Inr t"
    and s: "s = a @ t"
    by (auto split: sum.splits)
  from Cons.IH [OF t] obtain cells where "fs = map Inr cells" "t = concat cells"
    by blast
  then have "f # fs = map Inr (a # cells) \<and> s = concat (a # cells)"
    using f s by simp
  then show ?case by (rule exI [of _ "a # cells"])
qed


lemma bit_length_le: "n < 2 ^ k \<Longrightarrow> bit_length n \<le> k"
proof (induction k arbitrary: n)
  case 0
  then show ?case by (simp add: bit_length.simps)
next
  case (Suc k)
  show ?case
  proof (cases "n = 0")
    case True
    then show ?thesis by (simp add: bit_length.simps)
  next
    case False
    have "n div 2 < 2 ^ k" using Suc.prems by simp
    from Suc.IH [OF this] show ?thesis
      using False by (subst bit_length.simps) simp
  qed
qed

lemma bit_length_eq: "2 ^ k \<le> n \<Longrightarrow> n < 2 ^ Suc k \<Longrightarrow> bit_length n = Suc k"
proof (induction k arbitrary: n)
  case 0
  then have "n = 1" by simp
  then show ?case by (simp add: bit_length.simps)
next
  case (Suc k)
  have "2 ^ k \<le> n div 2" "n div 2 < 2 ^ Suc k" using Suc.prems by simp_all
  from Suc.IH [OF this] show ?case
    using Suc.prems by (subst bit_length.simps) auto
qed

lemma float64_int_exact: "\<bar>i\<bar> \<le> 9007199254740992 \<Longrightarrow> float64_int i = i"
proof (cases "\<bar>i\<bar> = 9007199254740992")
  case True
  then have i: "i = 9007199254740992 \<or> i = - 9007199254740992" by auto
  have b: "bit_length (9007199254740992 :: nat) = Suc 53"
    by (rule bit_length_eq) simp_all
  from i show ?thesis
    by (auto simp: float64_int_def Let_def b)
next
  case False
  assume "\<bar>i\<bar> \<le> 9007199254740992"
  with False have "nat \<bar>i\<bar> < 2 ^ 53" by simp
  then have "bit_length (nat \<bar>i\<bar>) \<le> 53" by (rule bit_length_le)
  then have "bit_length (nat \<bar>i\<bar>) - 53 = 0" by simp
  then show ?thesis
    by (simp add: float64_int_def Let_def sgn_if)
qed

lemma str_nat_bound: "length (str_nat n) \<le> k \<Longrightarrow> n < 10 ^ k"
proof (induction k arbitrary: n)
  case 0
  then show ?case using str_nat_not_Nil [of n] by simp
next
  case (Suc k)
  show ?case
  proof (cases "n < 10")
    case True
    then have "n < 10 * 1" by simp
    also have "10 * 1 \<le> 10 * (10::nat) ^ k" by (rule mult_le_mono2) simp
    finally show ?thesis by simp
  next
    case False
    then have "length (str_nat (n div 10)) \<le> k"
      using Suc.prems by (simp add: str_nat_big)
    from Suc.IH [OF this] show ?thesis by simp
  qed
qed

lemma float64_int_short: "length (str_int i) \<le> 8 \<Longrightarrow> float64_int i = i"
proof -
  assume len: "length (str_int i) \<le> 8"
  then have "length (str_nat (nat \<bar>i\<bar>)) \<le> 8"
    by (auto simp: str_int_def abs_if split: if_splits)
  then have "nat \<bar>i\<bar> < 10 ^ 8" by (rule str_nat_bound)
  then have "\<bar>i\<bar> \<le> 9007199254740992" by simp
  then show ?thesis by (rule float64_int_exact)
qed

lemma float_row_cells: "row_dtype comps = Float64 \<Longrightarrow> c \<in> set comps \<Longrightarrow> \<not> is_Obj c"
  by (auto simp: row_dtype_def list_ex_iff split: if_splits)

lemma series_values_float:
  "row_dtype comps = Float64 \<Longrightarrow> series_values astype comps = map (float64_value astype) comps"
  by (simp add: series_values_def)

lemma format_float64_value:
  "\<not> is_Obj c \<Longrightarrow>
     format_field ops (float64_value astype c) =
       Inr (case c of I64 i \<Rightarrow> take 8 (rjust 8 (rendering ops (astype i)))
                    | F64 x \<Rightarrow> take 8 (rjust 8 (rendering ops x))
                    | Obj v \<Rightarrow> [])"
  by (cases c) (simp_all add: Let_def length_rjust)

lemma length_float_field:
  "\<not> is_Obj c \<Longrightarrow>
     length (case c of I64 i \<Rightarrow> take 8 (rjust 8 (rendering ops (astype i)))
                     | F64 x \<Rightarrow> take 8 (rjust 8 (rendering ops x))
                     | Obj v \<Rightarrow> []) = 8"
  by (cases c) (simp_all add: length_rjust)

lemma value_line_float:
  assumes "row_dtype comps = Float64"
  shows "value_line ops (k, series_values astype comps) =
     Inr (replicate 8 (CHR '' '') @ ''VALUE   ''
          @ concat (map (\<lambda>c. case c of I64 i \<Rightarrow> take 8 (rjust 8 (rendering ops (astype i)))
                                     | F64 x \<Rightarrow> take 8 (rjust 8 (rendering ops x))
                                     | Obj v \<Rightarrow> []) comps))"
proof -
  let ?F = "\<lambda>c. case c of I64 i \<Rightarrow> take 8 (rjust 8 (rendering ops (astype i)))
                        | F64 x \<Rightarrow> take 8 (rjust 8 (rendering ops x))
                        | Obj v \<Rightarrow> []"
  have "map (\<lambda>value. format_field ops value) (map (float64_value astype) comps)
          = map Inr (map ?F comps)"
    using float_row_cells [OF assms] by (simp add: format_float64_value)
  then have "concat_fields (map (\<lambda>value. format_field ops value)
                 (map (float64_value astype) comps)) = Inr (concat (map ?F comps))"
    by (simp only: concat_fields_Inr)
  moreover have "ljust 8 [] = replicate 8 (CHR '' '')" "ljust 8 ''VALUE'' = ''VALUE   ''"
    by (simp_all add: ljust_def eval_nat_numeral)
  ultimately show ?thesis
    by (simp add: value_line_def series_values_float [OF assms])
qed

lemma record_lines_float:
  assumes "\<forall>row \<in> set rows. row_dtype (snd row) = Float64"
  shows "record_lines ops (iterrows astype rows) =
     Inr (concat (map (\<lambda>row.
            [replicate 8 (CHR '' '') @ ''ELEM    '' @ rjust 8 (str_int (float64_int (fst row))),
             replicate 8 (CHR '' '') @ ''VALUE   ''
               @ concat (map (\<lambda>c. case c of
                                     I64 i \<Rightarrow> take 8 (rjust 8 (rendering ops (astype i)))
                                   | F64 x \<Rightarrow> take 8 (rjust 8 (rendering ops x))
                                   | Obj v \<Rightarrow> []) (snd row))]) rows))"
  using assms
proof (induction rows)
  case Nil
  then show ?case by (simp add: iterrows_def)
next
  case (Cons r rows)
  have f: "row_dtype (snd r) = Float64" using Cons.prems by simp
  have "record_lines ops (iterrows astype rows) = Inr (concat (map (\<lambda>row.
            [replicate 8 (CHR '' '') @ ''ELEM    '' @ rjust 8 (str_int (float64_int (fst row))),
             replicate 8 (CHR '' '') @ ''VALUE   ''
               @ concat (map (\<lambda>c. case c of
                                     I64 i \<Rightarrow> take 8 (rjust 8 (rendering ops (astype i)))
                                   | F64 x \<Rightarrow> take 8 (rjust 8 (rendering ops x))
                                   | Obj v \<Rightarrow> []) (snd row))]) rows))"
    using Cons by simp
  then show ?case
    using value_line_float [OF f, of ops "elem_int r" astype]
    by (simp add: iterrows_def row_values_def elem_line_eq elem_int_def f)
qed




lemma length_concat_cells:
  "\<forall>x \<in> set xs. length (f x) = 8 \<Longrightarrow> length (concat (map f xs)) = 8 * length xs"
  by (induction xs) simp_all

lemma elem_int_short: "length (str_int (fst row)) \<le> 8 \<Longrightarrow> elem_int row = fst row"
  by (simp add: elem_int_def float64_int_short)

lemma value_line_numeric:
  assumes "row_dtype comps \<noteq> Object"
    and "value_line ops (k, series_values astype comps) = Inr vl"
  shows "8 dvd length vl \<and> take 16 vl = replicate 8 (CHR '' '') @ ''VALUE   ''"
proof (cases "row_dtype comps")
  case Int64
  have p: "ljust 8 [] = replicate 8 (CHR '' '')" "ljust 8 ''VALUE'' = ''VALUE   ''"
    by (simp_all add: ljust_def eval_nat_numeral)
  have sv: "series_values astype comps = map (\<lambda>c. PyOther) comps"
    by (simp add: series_values_def Int64)
  have line: "concat_fields ([Inr (replicate 8 (CHR '' '')), Inr ''VALUE   '']
                 @ map (\<lambda>c. Inl ValueError) comps) = Inr vl"
    using assms(2) by (simp add: value_line_def sv p comp_def)
  show ?thesis
  proof (cases comps)
    case Nil
    then have "vl = replicate 8 (CHR '' '') @ ''VALUE   ''"
      using line by simp
    then show ?thesis by simp
  next
    case (Cons c cs)
    then show ?thesis using line by simp
  qed
next
  case Float64
  let ?F = "\<lambda>c. case c of I64 i \<Rightarrow> take 8 (rjust 8 (rendering ops (astype i)))
                        | F64 x \<Rightarrow> take 8 (rjust 8 (rendering ops x))
                        | Obj v \<Rightarrow> []"
  have vl: "vl = replicate 8 (CHR '' '') @ ''VALUE   '' @ concat (map ?F comps)"
    using value_line_float [OF Float64, of ops k astype] assms(2) by simp
  have "\<forall>c \<in> set comps. length (?F c) = 8"
    using float_row_cells [OF Float64] by (simp add: length_float_field)
  then have "length (concat (map ?F comps)) = 8 * length comps"
    by (rule length_concat_cells)
  then have "length vl = 8 * (2 + length comps)" by (simp add: vl)
  then have "8 dvd length vl" by simp
  then show ?thesis by (simp add: vl)
next
  case Object
  with assms(1) show ?thesis by simp
qed

lemma record_lines_numeric:
  assumes "\<forall>row \<in> set rows. length (str_int (fst row)) \<le> 8"
    and "\<forall>row \<in> set rows. row_dtype (snd row) \<noteq> Object"
    and "record_lines ops (iterrows astype rows) = Inr body"
  shows "length body = 2 * length rows
     \<and> (\<forall>l \<in> set body. 8 dvd length l)
     \<and> (\<forall>i < length rows.
           take 16 (body ! (2 * i)) = replicate 8 (CHR '' '') @ ''ELEM    ''
           \<and> take 16 (body ! (2 * i + 1)) = replicate 8 (CHR '' '') @ ''VALUE   '')"
  using assms
proof (induction rows arbitrary: body)
  case Nil
  then show ?case by (simp add: iterrows_def)
next
  case (Cons r rows)
  let ?el = "replicate 8 (CHR '' '') @ ''ELEM    '' @ rjust 8 (str_int (fst r))"
  have short: "length (str_int (fst r)) \<le> 8" using Cons.prems(1) by simp
  have el: "elem_line ops (row_values astype r) = Inr ?el"
    by (simp add: elem_line_eq row_values_def elem_int_short [OF short])
  from Cons.prems(3) obtain vl ls where
    vl: "value_line ops (row_values astype r) = Inr vl" and
    ls: "record_lines ops (iterrows astype rows) = Inr ls" and
    body: "body = ?el # vl # ls"
    by (auto simp: iterrows_def el split: sum.splits)
  have "row_dtype (snd r) \<noteq> Object" using Cons.prems(2) by simp
  from value_line_numeric [OF this, of ops "elem_int r" astype vl] vl
  have v: "8 dvd length vl" "take 16 vl = replicate 8 (CHR '' '') @ ''VALUE   ''"
    by (simp_all add: row_values_def)
  have "length ?el = 24" using short by (simp add: length_rjust max_def)
  then have e: "8 dvd length ?el" by simp
  have ih: "length ls = 2 * length rows \<and> (\<forall>l \<in> set ls. 8 dvd length l)
     \<and> (\<forall>i < length rows.
           take 16 (ls ! (2 * i)) = replicate 8 (CHR '' '') @ ''ELEM    ''
           \<and> take 16 (ls ! (2 * i + 1)) = replicate 8 (CHR '' '') @ ''VALUE   '')"
    using Cons.IH [OF _ _ ls] Cons.prems(1,2) by simp
  have pre: "take 16 (body ! (2 * i)) = replicate 8 (CHR '' '') @ ''ELEM    ''
           \<and> take 16 (body ! (2 * i + 1)) = replicate 8 (CHR '' '') @ ''VALUE   ''"
    if "i < length (r # rows)" for i
  proof (cases i)
    case 0
    then show ?thesis using v(2) by (simp add: body)
  next
    case (Suc j)
    then have "j < length rows" using that by simp
    with ih show ?thesis by (simp add: body Suc)
  qed
  from ih have ih2: "\<forall>l \<in> set ls. 8 dvd length l" by blast
  have dvd: "\<forall>l \<in> set body. 8 dvd length l"
    using e v(1) ih2 unfolding body by (simp only: set_simps ball_simps simp_thms)
  show ?case
    using ih dvd pre by (simp add: body)
qed

text \<open>
  Claim C7, as stated, fails for an element identifier of nine digits: its ELEM line
  has 25 characters.
\<close>

theorem line_lengths_counterexample:
  "output_lines literal_ops literal_astype
     [(123456789, [F64 ''1.5'', F64 ''-2.5'', F64 ''-2.5'', F64 ''0.25'', F64 ''3.0'', F64 ''3.0''])]
     = Inr [''INISTRS 100             0       '',
            ''        ELEM    123456789'',
            ''        VALUE        1.5    -2.5    -2.5    0.25     3.0     3.0'']
   \<and> \<not> 8 dvd length ''        ELEM    123456789''"
proof -
  have s: "str_int 123456789 = ''123456789''" by (simp add: str_int_eval)
  have r: "float64_int 123456789 = 123456789" by (simp add: float64_int_exact)
  have out: "output_lines literal_ops literal_astype
       [(123456789, [F64 ''1.5'', F64 ''-2.5'', F64 ''-2.5'', F64 ''0.25'', F64 ''3.0'', F64 ''3.0''])]
     = Inr [''INISTRS 100             0       '',
            ''        ELEM    123456789'',
            ''        VALUE        1.5    -2.5    -2.5    0.25     3.0     3.0'']"
    by (simp add: output_lines_def header_line_eq record_lines_float row_dtype_def r s
          literal_ops_def rjust_def eval_nat_numeral)
  have len: "length ''        ELEM    123456789'' = 25" by simp
  have "\<not> 8 dvd length ''        ELEM    123456789''" unfolding len by simp
  with out show ?thesis by (simp only: simp_thms)
qed

text \<open>
  Claim C7, amended.  When every element identifier has a decimal rendering of at most
  8 characters and the component values are numbers, every line of an emitted output
  has a length that is a multiple of 8; the header begins with the field \<open>INISTRS\<close>, and
  the two lines of the i-th record begin with an empty 8-character field followed by
  the field \<open>ELEM\<close>, respectively \<open>VALUE\<close>.  The output is emitted whenever the rows are
  \<open>float64\<close> rows.
\<close>

theorem line_lengths_and_prefixes:
  assumes "\<forall>row \<in> set rows. length (str_int (fst row)) \<le> 8"
    and "\<forall>row \<in> set rows. row_dtype (snd row) \<noteq> Object"
  shows "(\<forall>lines. output_lines ops astype rows = Inr lines \<longrightarrow>
       (\<exists>header body. lines = header # body
          \<and> (\<forall>l \<in> set (header # body). 8 dvd length l)
          \<and> take 8 header = ''INISTRS '' \<and> length header = 32
          \<and> length body = 2 * length rows
          \<and> (\<forall>i < length rows.
                take 16 (body ! (2 * i)) = replicate 8 (CHR '' '') @ ''ELEM    ''
                \<and> take 16 (body ! (2 * i + 1)) = replicate 8 (CHR '' '') @ ''VALUE   '')))
     \<and> ((\<forall>row \<in> set rows. row_dtype (snd row) = Float64) \<longrightarrow>
          (\<exists>header body. output_lines ops astype rows = Inr (header # body)
             \<and> (\<forall>l \<in> set (header # body). 8 dvd length l)
             \<and> take 8 header = ''INISTRS '' \<and> length header = 32
             \<and> length body = 2 * length rows
             \<and> (\<forall>i < length rows.
                   take 16 (body ! (2 * i)) = replicate 8 (CHR '' '') @ ''ELEM    ''
                   \<and> take 16 (body ! (2 * i + 1)) = replicate 8 (CHR '' '') @ ''VALUE   '')))"
proof -
  let ?h = "''INISTRS 100             0       ''"
  have hlen: "length ?h = 32" by simp
  have hdvd: "8 dvd length ?h" unfolding hlen by simp
  have all: "\<exists>header body. lines = header # body
          \<and> (\<forall>l \<in> set (header # body). 8 dvd length l)
          \<and> take 8 header = ''INISTRS '' \<and> length header = 32
          \<and> length body = 2 * length rows
          \<and> (\<forall>i < length rows.
                take 16 (body ! (2 * i)) = replicate 8 (CHR '' '') @ ''ELEM    ''
                \<and> take 16 (body ! (2 * i + 1)) = replicate 8 (CHR '' '') @ ''VALUE   '')"
    if out: "output_lines ops astype rows = Inr lines" for lines
  proof -
    from out obtain body where
      body: "record_lines ops (iterrows astype rows) = Inr body" and
      lines: "lines = ?h # body"
      by (auto simp: output_lines_def header_line_eq split: sum.splits)
    from record_lines_numeric [OF assms body]
    have "length body = 2 * length rows" and "\<forall>l \<in> set body. 8 dvd length l"
      and "\<forall>i < length rows.
           take 16 (body ! (2 * i)) = replicate 8 (CHR '' '') @ ''ELEM    ''
           \<and> take 16 (body ! (2 * i + 1)) = replicate 8 (CHR '' '') @ ''VALUE   ''"
      by blast+
    with hdvd lines show ?thesis by simp
  qed
  have some: "\<exists>lines. output_lines ops astype rows = Inr lines"
    if "\<forall>row \<in> set rows. row_dtype (snd row) = Float64"
    by (simp add: output_lines_def header_line_eq record_lines_float [OF that])
  show ?thesis
  proof (intro conjI allI impI)
    fix lines assume "output_lines ops astype rows = Inr lines"
    then show "\<exists>header body. lines = header # body
          \<and> (\<forall>l \<in> set (header # body). 8 dvd length l)
          \<and> take 8 header = ''INISTRS '' \<and> length header = 32
          \<and> length body = 2 * length rows
          \<and> (\<forall>i < length rows.
                take 16 (body ! (2 * i)) = replicate 8 (CHR '' '') @ ''ELEM    ''
                \<and> take 16 (body ! (2 * i + 1)) = replicate 8 (CHR '' '') @ ''VALUE   '')"
      by (rule all)
  next
    assume "\<forall>row \<in> set rows. row_dtype (snd row) = Float64"
    from some [OF this] obtain lines where out: "output_lines ops astype rows = Inr lines"
      by blast
    from all [OF out] show "\<exists>header body. output_lines ops astype rows = Inr (header # body)
             \<and> (\<forall>l \<in> set (header # body). 8 dvd length l)
             \<and> take 8 header = ''INISTRS '' \<and> length header = 32
             \<and> length body = 2 * length rows
             \<and> (\<forall>i < length rows.
                   take 16 (body ! (2 * i)) = replicate 8 (CHR '' '') @ ''ELEM    ''
                   \<and> take 16 (body ! (2 * i + 1)) = replicate 8 (CHR '' '') @ ''VALUE   '')"
      using out by auto
  qed
qed

theorem line_lengths_and_prefixes_witness:
  "length (str_int 12345678) \<le> 8
   \<and> row_dtype [F64 ''1.5'', F64 ''-2.5'', F64 ''-2.5'', F64 ''0.25'', F64 ''3.0'', F64 ''3.0'']
       = Float64
   \<and> output_lines literal_ops literal_astype
       [(12345678, [F64 ''1.5'', F64 ''-2.5'', F64 ''-2.5'', F64 ''0.25'', F64 ''3.0'', F64 ''3.0''])]
     = Inr [''INISTRS 100             0       '',
            ''        ELEM    12345678'',
            ''        VALUE        1.5    -2.5    -2.5    0.25     3.0     3.0'']
   \<and> 8 dvd length ''INISTRS 100             0       ''
   \<and> 8 dvd length ''        ELEM    12345678''
   \<and> 8 dvd length ''        VALUE        1.5    -2.5    -2.5    0.25     3.0     3.0''"
proof -
  let ?comps = "[F64 ''1.5'', F64 ''-2.5'', F64 ''-2.5'', F64 ''0.25'', F64 ''3.0'', F64 ''3.0'']"
  let ?rows = "[(12345678::int, ?comps)]"
  have s: "str_int 12345678 = ''12345678''" by (simp add: str_int_eval)
  have r: "float64_int 12345678 = 12345678" by (simp add: float64_int_exact)
  have t: "row_dtype ?comps = Float64" by (simp add: row_dtype_def)
  have h: "\<forall>row \<in> set ?rows. length (str_int (fst row)) \<le> 8" by (simp add: s)
  have n: "\<forall>row \<in> set ?rows. row_dtype (snd row) \<noteq> Object" by (simp add: t)
  have f: "\<forall>row \<in> set ?rows. row_dtype (snd row) = Float64" by (simp add: t)
  have out: "output_lines literal_ops literal_astype ?rows
     = Inr [''INISTRS 100             0       '',
            ''        ELEM    12345678'',
            ''        VALUE        1.5    -2.5    -2.5    0.25     3.0     3.0'']"
    by (simp add: output_lines_def header_line_eq record_lines_float row_dtype_def r s
          literal_ops_def rjust_def eval_nat_numeral)
  from line_lengths_and_prefixes [OF h n, of literal_ops literal_astype] f out
  have "\<forall>l \<in> set [''INISTRS 100             0       '',
            ''        ELEM    12345678'',
            ''        VALUE        1.5    -2.5    -2.5    0.25     3.0     3.0'']. 8 dvd length l"
    by auto
  then have d: "8 dvd length ''INISTRS 100             0       ''"
    "8 dvd length ''        ELEM    12345678''"
    "8 dvd length ''        VALUE        1.5    -2.5    -2.5    0.25     3.0     3.0''"
    by (simp_all only: set_simps ball_simps simp_thms)
  have h': "length (str_int 12345678) \<le> 8" by (simp add: s)
  from h' t out d show ?thesis by (simp only: simp_thms)
qed

section \<open>The joiner\<close>

lemma merge_Nil: "merge [] right = []"
  by (simp add: merge_def)

lemma merge_Cons:
  "merge ((elem, comps) # left) right =
     map (\<lambda>(_, v). (elem, comps @ [v])) (filter (\<lambda>(e, _). e = elem) right) @ merge left right"
  by (simp add: merge_def)

lemma filter_key_pairs:
  "filter (\<lambda>row. fst row = k) (map (\<lambda>(_, v). (elem, f v)) xs) =
     (if elem = k then map (\<lambda>(_, v). (elem, f v)) xs else [])"
  by (induction xs) auto

lemma count_merge:
  "length (filter (\<lambda>row. fst row = k) (merge left right)) =
     length (filter (\<lambda>row. fst row = k) left) * length (filter (\<lambda>row. fst row = k) right)"
proof (induction left)
  case Nil
  then show ?case by (simp add: merge_Nil)
next
  case (Cons r left)
  obtain elem comps where r: "r = (elem, comps)" by (cases r)
  have same: "(\<lambda>(e, _). e = elem) = (\<lambda>row. fst row = elem)" by auto
  show ?case
    using Cons.IH by (simp add: r merge_Cons filter_key_pairs same)
qed

lemma count_foldl_merge:
  "length (filter (\<lambda>row. fst row = k) (foldl merge init dfs)) =
     length (filter (\<lambda>row. fst row = k) init)
       * prod_list (map (\<lambda>df. length (filter (\<lambda>row. fst row = k) df)) dfs)"
  by (induction dfs arbitrary: init) (simp_all add: count_merge)

lemma count_elem_column:
  "length (filter (\<lambda>row. fst row = k) (map (\<lambda>(elem, _). (elem, [])) df)) =
     length (filter (\<lambda>row. fst row = k) df)"
  by (induction df) auto

lemma combined_data_six:
  "combined_data [xx, yy, zz, xy, yz, zx] =
     Inr (foldl merge (map (\<lambda>(elem, _). (elem, [])) xx) [xx, yy, zz, xy, yz, zx])"
  by (simp add: combined_data_def)

lemma product_step:
  "concat (map (\<lambda>(elem', comps'). map (\<lambda>vs. (elem', comps' @ vs)) (P elem'))
               (map (\<lambda>(_, v). (elem, comps @ [v])) M))
     = map (\<lambda>vs. (elem, comps @ vs)) (concat (map (\<lambda>x. map (Cons x) (P elem)) (map snd M)))"
  by (induction M) auto

lemma merge_product:
  "concat (map (\<lambda>(elem, comps). map (\<lambda>vs. (elem, comps @ vs)) (P elem)) (merge init df))
     = concat (map (\<lambda>(elem, comps). map (\<lambda>vs. (elem, comps @ vs))
                      (concat (map (\<lambda>x. map (Cons x) (P elem))
                                   (map snd (filter (\<lambda>r. fst r = elem) df))))) init)"
proof (induction init)
  case Nil
  then show ?case by (simp add: merge_Nil)
next
  case (Cons r init)
  obtain elem comps where r: "r = (elem, comps)" by (cases r)
  have same: "(\<lambda>(e, _). e = elem) = (\<lambda>row. fst row = elem)" by auto
  let ?F = "\<lambda>(elem, comps). map (\<lambda>vs. (elem, comps @ vs)) (P elem)"
  let ?G = "\<lambda>(elem, comps). map (\<lambda>vs. (elem, comps @ vs))
                      (concat (map (\<lambda>x. map (Cons x) (P elem))
                                   (map snd (filter (\<lambda>r. fst r = elem) df))))"
  have "concat (map ?F (merge (r # init) df)) =
          concat (map ?F (map (\<lambda>(_, v). (elem, comps @ [v])) (filter (\<lambda>r. fst r = elem) df)))
          @ concat (map ?F (merge init df))"
    by (simp only: r merge_Cons same map_append concat_append)
  also have "\<dots> = ?G (elem, comps) @ concat (map ?G init)"
    by (simp only: product_step Cons.IH prod.case)
  also have "\<dots> = concat (map ?G (r # init))"
    by (simp only: r list.map concat.simps)
  finally show ?case .
qed

lemma foldl_merge_product:
  "foldl merge init dfs =
     concat (map (\<lambda>(elem, comps). map (\<lambda>vs. (elem, comps @ vs))
                    (product_lists (map (\<lambda>df. map snd (filter (\<lambda>r. fst r = elem) df)) dfs)))
                 init)"
proof (induction dfs arbitrary: init)
  case Nil
  show ?case by (induction init) auto
next
  case (Cons df dfs)
  have "foldl merge init (df # dfs) = foldl merge (merge init df) dfs" by simp
  also have "\<dots> = concat (map (\<lambda>(elem, comps). map (\<lambda>vs. (elem, comps @ vs))
                    (product_lists (map (\<lambda>df. map snd (filter (\<lambda>r. fst r = elem) df)) dfs)))
                 (merge init df))"
    by (rule Cons.IH)
  also have "\<dots> = concat (map (\<lambda>(elem, comps). map (\<lambda>vs. (elem, comps @ vs))
                    (product_lists (map (\<lambda>df. map snd (filter (\<lambda>r. fst r = elem) df)) (df # dfs))))
                 init)"
    by (simp add: merge_product)
  finally show ?case .
qed

lemma combined_data_product:
  "combined_data [xx, yy, zz, xy, yz, zx] =
     Inr (concat (map (\<lambda>(elem, _). map (\<lambda>vs. (elem, vs))
                    (product_lists (map (\<lambda>df. map snd (filter (\<lambda>r. fst r = elem) df))
                                        [xx, yy, zz, xy, yz, zx])))
                 xx))"
  unfolding combined_data_six foldl_merge_product
  by (simp add: split_def comp_def)

text \<open>
  Claim C5, as stated, fails: with the identifier 7 twice in the second table the
  joiner returns two records for it, and raises nothing.
\<close>

theorem duplicate_key_counterexample:
  "\<not> distinct (map fst [(7, F64 ''2.0''), (7, F64 ''3.0'')])
   \<and> combined_data
        [[(7, F64 ''1.0'')], [(7, F64 ''2.0''), (7, F64 ''3.0'')], [(7, F64 ''4.0'')],
         [(7, F64 ''5.0'')], [(7, F64 ''6.0'')], [(7, F64 ''7.0'')]]
     = Inr [(7, [F64 ''1.0'', F64 ''2.0'', F64 ''4.0'', F64 ''5.0'', F64 ''6.0'', F64 ''7.0'']),
            (7, [F64 ''1.0'', F64 ''3.0'', F64 ''4.0'', F64 ''5.0'', F64 ''6.0'', F64 ''7.0''])]"
  by (simp add: combined_data_def merge_def)

text \<open>
  Claim C5, amended.  The joiner never fails on repeated element identifiers.  For
  every row of the first table, in order, it returns one record for every combination
  of one row with that identifier from each of the six tables, the first included,
  the combinations in the order of the rows (those of the last table varying fastest);
  the six values of the record are the values of the rows of the combination.  So the
  number of records with identifier \<open>k\<close> is the product of the numbers of rows with
  identifier \<open>k\<close> in the six tables, times once more that number for the first table.
\<close>

theorem repeated_keys_multiply:
  "\<exists>rows. combined_data [xx, yy, zz, xy, yz, zx] = Inr rows
     \<and> rows = concat (map (\<lambda>(elem, _). map (\<lambda>vs. (elem, vs))
                  (product_lists (map (\<lambda>df. map snd (filter (\<lambda>r. fst r = elem) df))
                                      [xx, yy, zz, xy, yz, zx])))
                xx)
     \<and> (\<forall>k. length (filter (\<lambda>row. fst row = k) rows) =
            length (filter (\<lambda>row. fst row = k) xx)
            * (length (filter (\<lambda>row. fst row = k) xx)
               * length (filter (\<lambda>row. fst row = k) yy)
               * length (filter (\<lambda>row. fst row = k) zz)
               * length (filter (\<lambda>row. fst row = k) xy)
               * length (filter (\<lambda>row. fst row = k) yz)
               * length (filter (\<lambda>row. fst row = k) zx)))"
proof -
  let ?rows = "concat (map (\<lambda>(elem, _). map (\<lambda>vs. (elem, vs))
                  (product_lists (map (\<lambda>df. map snd (filter (\<lambda>r. fst r = elem) df))
                                      [xx, yy, zz, xy, yz, zx])))
                xx)"
  have rows: "combined_data [xx, yy, zz, xy, yz, zx] = Inr ?rows"
    by (rule combined_data_product)
  then have eq: "?rows = foldl merge (map (\<lambda>(elem, _). (elem, [])) xx) [xx, yy, zz, xy, yz, zx]"
    unfolding combined_data_six by simp
  have "length (filter (\<lambda>row. fst row = k) ?rows) =
            length (filter (\<lambda>row. fst row = k) xx)
            * (length (filter (\<lambda>row. fst row = k) xx)
               * length (filter (\<lambda>row. fst row = k) yy)
               * length (filter (\<lambda>row. fst row = k) zz)
               * length (filter (\<lambda>row. fst row = k) xy)
               * length (filter (\<lambda>row. fst row = k) yz)
               * length (filter (\<lambda>row. fst row = k) zx))" for k
    unfolding eq count_foldl_merge count_elem_column by (simp add: mult.assoc)
  with rows show ?thesis by blast
qed

lemma matches_distinct:
  "distinct (map fst right) \<Longrightarrow>
     length (filter (\<lambda>(e, _). e = k) right) = (if k \<in> fst ` set right then 1 else 0)"
  by (induction right) (auto simp: image_iff)

lemma keys_merge:
  assumes "distinct (map fst right)"
  shows "map fst (merge left right) = filter (\<lambda>k. k \<in> fst ` set right) (map fst left)"
proof (induction left)
  case Nil
  then show ?case by (simp add: merge_Nil)
next
  case (Cons r left)
  obtain elem comps where r: "r = (elem, comps)" by (cases r)
  have "map fst (map (\<lambda>(_, v). (elem, comps @ [v])) (filter (\<lambda>(e, _). e = elem) right))
          = replicate (length (filter (\<lambda>(e, _). e = elem) right)) elem"
    by (simp add: map_replicate_const [symmetric] split_def comp_def)
  then have "map fst (map (\<lambda>(_, v). (elem, comps @ [v])) (filter (\<lambda>(e, _). e = elem) right))
          = (if elem \<in> fst ` set right then [elem] else [])"
    by (simp add: matches_distinct [OF assms])
  then show ?case
    using Cons.IH by (simp add: r merge_Cons)
qed

lemma keys_foldl_merge:
  "\<forall>df \<in> set dfs. distinct (map fst df) \<Longrightarrow>
     map fst (foldl merge init dfs) =
       filter (\<lambda>k. \<forall>df \<in> set dfs. k \<in> fst ` set df) (map fst init)"
proof (induction dfs arbitrary: init)
  case Nil
  then show ?case by simp
next
  case (Cons df dfs)
  have "map fst (foldl merge (merge init df) dfs) =
          filter (\<lambda>k. \<forall>d \<in> set dfs. k \<in> fst ` set d) (map fst (merge init df))"
    using Cons.IH [of "merge init df"] Cons.prems by simp
  also have "\<dots> = filter (\<lambda>k. \<forall>d \<in> set (df # dfs). k \<in> fst ` set d) (map fst init)"
    using Cons.prems by (simp add: keys_merge conj_commute)
  finally show ?case by simp
qed

lemma keys_product:
  "map fst (concat (map (\<lambda>(elem, _). map (\<lambda>vs. (elem, vs)) (P elem)) xx))
     = concat (map (\<lambda>k. replicate (length (P k)) k) (map fst xx))"
  by (induction xx) (auto simp: map_replicate_const [symmetric] comp_def)

lemma length_product_lists_prod: "length (product_lists xss) = prod_list (map length xss)"
  by (induction xss) (simp_all add: length_concat comp_def sum_list_triv)

lemma length_products:
  "length (product_lists (map (\<lambda>df. map snd (filter (\<lambda>r. fst r = k) df)) dfs))
     = prod_list (map (\<lambda>df. length (filter (\<lambda>r. fst r = k) df)) dfs)"
  by (simp add: length_product_lists_prod comp_def)

lemma key_present:
  "0 < length (filter (\<lambda>row. fst row = k) df) \<longleftrightarrow> k \<in> fst ` set df"
  by (induction df) auto

lemma set_merge:
  "set (merge left right) =
     {(k, comps @ [v]) | k comps v. (k, comps) \<in> set left \<and> (k, v) \<in> set right}"
  by (induction left) (auto simp: merge_Nil merge_Cons)

lemma rows_foldl_merge:
  "(k, vs) \<in> set (foldl merge init dfs) \<Longrightarrow>
     \<exists>comps. (k, comps) \<in> set init \<and> take (length comps) vs = comps
       \<and> length vs = length comps + length dfs
       \<and> (\<forall>i < length dfs. (k, vs ! (length comps + i)) \<in> set (dfs ! i))"
proof (induction dfs arbitrary: init)
  case Nil
  then show ?case by auto
next
  case (Cons df dfs)
  from Cons.prems have "(k, vs) \<in> set (foldl merge (merge init df) dfs)" by simp
  from Cons.IH [OF this] obtain comps' where
    mem: "(k, comps') \<in> set (merge init df)" and
    pre: "take (length comps') vs = comps'" and
    len: "length vs = length comps' + length dfs" and
    nth: "\<forall>i < length dfs. (k, vs ! (length comps' + i)) \<in> set (dfs ! i)"
    by blast
  from mem obtain comps v where
    eq: "comps' = comps @ [v]" and init: "(k, comps) \<in> set init" and df: "(k, v) \<in> set df"
    by (auto simp: set_merge)
  have pre': "take (length comps) vs = comps"
    using arg_cong [OF pre, of "take (length comps)"] by (simp add: eq min_def)
  have v: "vs ! length comps = v"
    using arg_cong [OF pre, of "\<lambda>xs. xs ! length comps"] by (simp add: eq)
  have "(k, vs ! (length comps + i)) \<in> set ((df # dfs) ! i)" if "i < length (df # dfs)" for i
  proof (cases i)
    case 0
    then show ?thesis using v df by simp
  next
    case (Suc j)
    then have "j < length dfs" using that by simp
    with nth have "(k, vs ! (length comps' + j)) \<in> set (dfs ! j)" by blast
    then show ?thesis using Suc by (simp add: eq)
  qed
  with init pre' len show ?case by (auto simp: eq)
qed

lemma elem_column_keys: "map fst (map (\<lambda>(elem, _). (elem, [])) df) = map fst df"
  by (induction df) auto

lemma elem_column_comps: "(k, comps) \<in> set (map (\<lambda>(elem, _). (elem, [])) df) \<Longrightarrow> comps = []"
  by auto

text \<open>
  Claim C1, as stated for well-formed tables, fails: a well-formed table other than the
  first may repeat an element identifier.  Below, the six tables have the same set of
  identifiers, of size 1, no identifier repeats in the first table, and the joiner
  returns two records.
\<close>

theorem joiner_length_counterexample:
  "combined_data
     [[(4, F64 ''1.5'')], [(4, F64 ''2.5'')], [(4, F64 ''3.5''), (4, F64 ''-3.5'')],
      [(4, F64 ''4.5'')], [(4, F64 ''5.5'')], [(4, F64 ''6.5'')]]
     = Inr [(4, [F64 ''1.5'', F64 ''2.5'', F64 ''3.5'', F64 ''4.5'', F64 ''5.5'', F64 ''6.5'']),
            (4, [F64 ''1.5'', F64 ''2.5'', F64 ''-3.5'', F64 ''4.5'', F64 ''5.5'', F64 ''6.5''])]
   \<and> distinct (map fst [(4::int, F64 ''1.5'')])
   \<and> list_all (\<lambda>df. fst ` set df = {4})
        [[(4::int, F64 ''1.5'')], [(4, F64 ''2.5'')], [(4, F64 ''3.5''), (4, F64 ''-3.5'')],
         [(4, F64 ''4.5'')], [(4, F64 ''5.5'')], [(4, F64 ''6.5'')]]
   \<and> card {4::int} = 1
   \<and> length [(4::int, [F64 ''1.5'', F64 ''2.5'', F64 ''3.5'', F64 ''4.5'', F64 ''5.5'', F64 ''6.5'']),
              (4, [F64 ''1.5'', F64 ''2.5'', F64 ''-3.5'', F64 ''4.5'', F64 ''5.5'', F64 ''6.5''])] = 2"
  by (simp add: combined_data_def merge_def)

text \<open>
  Claim C1, amended.  For every six tables the joiner returns records whose
  identifiers are exactly those present in all six tables, in the order of the rows of
  the first table, the identifier of such a row as many times as there are combinations
  of rows with that identifier in the six tables; every record has six component
  values, the i-th being the value of a row with that identifier in the i-th table.
  When no identifier repeats within any of the six tables there is exactly one record
  for each identifier present in all of them, in the order of the first table, and
  when moreover the six tables have the same set of identifiers, the number of records
  is the size of that set.
\<close>

theorem joiner_inner_join:
  "\<exists>rows. combined_data [xx, yy, zz, xy, yz, zx] = Inr rows
     \<and> set (map fst rows) = {k. \<forall>df \<in> set [xx, yy, zz, xy, yz, zx]. k \<in> fst ` set df}
     \<and> map fst rows =
         concat (map (\<lambda>k. replicate
                            (prod_list (map (\<lambda>df. length (filter (\<lambda>row. fst row = k) df))
                                            [xx, yy, zz, xy, yz, zx])) k)
                     (map fst xx))
     \<and> (\<forall>row \<in> set rows. length (snd row) = 6
           \<and> (\<forall>i < 6. (fst row, snd row ! i) \<in> set ([xx, yy, zz, xy, yz, zx] ! i)))
     \<and> ((\<forall>df \<in> set [xx, yy, zz, xy, yz, zx]. distinct (map fst df)) \<longrightarrow>
          map fst rows =
            filter (\<lambda>k. \<forall>df \<in> set [xx, yy, zz, xy, yz, zx]. k \<in> fst ` set df) (map fst xx)
          \<and> ((\<forall>df \<in> set [xx, yy, zz, xy, yz, zx]. fst ` set df = fst ` set xx)
                \<longrightarrow> length rows = card (fst ` set xx)))"
proof -
  let ?dfs = "[xx, yy, zz, xy, yz, zx]"
  let ?rows = "foldl merge (map (\<lambda>(elem, _). (elem, [])) xx) ?dfs"
  let ?P = "\<lambda>k. product_lists (map (\<lambda>df. map snd (filter (\<lambda>r. fst r = k) df)) ?dfs)"
  have count: "length (filter (\<lambda>row. fst row = k) ?rows) =
      length (filter (\<lambda>row. fst row = k) xx)
        * prod_list (map (\<lambda>df. length (filter (\<lambda>row. fst row = k) df)) ?dfs)" for k
    unfolding count_foldl_merge count_elem_column by simp
  have common: "set (map fst ?rows) = {k. \<forall>df \<in> set ?dfs. k \<in> fst ` set df}"
  proof -
    have "k \<in> fst ` set ?rows \<longleftrightarrow> (\<forall>df \<in> set ?dfs. k \<in> fst ` set df)" for k
    proof -
      have "k \<in> fst ` set ?rows \<longleftrightarrow> 0 < length (filter (\<lambda>row. fst row = k) ?rows)"
        by (simp only: key_present)
      also have "\<dots> \<longleftrightarrow> (\<forall>df \<in> set ?dfs. 0 < length (filter (\<lambda>row. fst row = k) df))"
        unfolding count by simp
      also have "\<dots> \<longleftrightarrow> (\<forall>df \<in> set ?dfs. k \<in> fst ` set df)"
        by (simp only: key_present)
      finally show ?thesis .
    qed
    then show ?thesis by auto
  qed
  have order: "map fst ?rows =
         concat (map (\<lambda>k. replicate
                            (prod_list (map (\<lambda>df. length (filter (\<lambda>row. fst row = k) df)) ?dfs)) k)
                     (map fst xx))"
  proof -
    have "combined_data ?dfs =
        Inr (concat (map (\<lambda>(elem, _). map (\<lambda>vs. (elem, vs)) (?P elem)) xx))"
      by (rule combined_data_product)
    then have "Inr ?rows =
        (Inr (concat (map (\<lambda>(elem, _). map (\<lambda>vs. (elem, vs)) (?P elem)) xx))
           :: error + (int \<times> 'a cell list) list)"
      unfolding combined_data_six .
    then have "map fst ?rows =
        map fst (concat (map (\<lambda>(elem, _). map (\<lambda>vs. (elem, vs)) (?P elem)) xx))"
      by (simp only: sum.inject)
    also have "\<dots> = concat (map (\<lambda>k. replicate (length (?P k)) k) (map fst xx))"
      by (rule keys_product)
    finally show ?thesis
      unfolding length_products .
  qed
  have vals: "length (snd row) = 6 \<and> (\<forall>i < 6. (fst row, snd row ! i) \<in> set (?dfs ! i))"
    if "row \<in> set ?rows" for row
  proof -
    from that have "(fst row, snd row) \<in> set ?rows" by simp
    from rows_foldl_merge [OF this] obtain comps where
      c: "(fst row, comps) \<in> set (map (\<lambda>(elem, _). (elem, [])) xx)" and
      pre: "take (length comps) (snd row) = comps" and
      len: "length (snd row) = length comps + length ?dfs" and
      nth: "\<forall>i < length ?dfs. (fst row, snd row ! (length comps + i)) \<in> set (?dfs ! i)"
      by (elim exE conjE)
    from c have "comps = []" by (rule elem_column_comps)
    with len nth show ?thesis by simp
  qed
  have keys: "map fst ?rows = filter (\<lambda>k. \<forall>df \<in> set ?dfs. k \<in> fst ` set df) (map fst xx)"
    if d: "\<forall>df \<in> set ?dfs. distinct (map fst df)"
    using keys_foldl_merge [OF d, of "map (\<lambda>(elem, _). (elem, [])) xx"]
    by (simp only: elem_column_keys)
  have len: "length ?rows = card (fst ` set xx)"
    if d: "\<forall>df \<in> set ?dfs. distinct (map fst df)"
      and same: "\<forall>df \<in> set ?dfs. fst ` set df = fst ` set xx"
  proof -
    have "filter (\<lambda>k. \<forall>df \<in> set ?dfs. k \<in> fst ` set df) (map fst xx) = map fst xx"
      using same by (intro filter_True) auto
    with keys [OF d] have "map fst ?rows = map fst xx" by simp
    then have "length ?rows = length (map fst xx)" by (metis length_map)
    also have "\<dots> = card (set (map fst xx))"
    proof -
      have "distinct (map fst xx)" using d by simp
      then show ?thesis by (rule distinct_card [symmetric])
    qed
    finally show ?thesis by simp
  qed
  show ?thesis
    unfolding combined_data_six using common order vals keys len by blast
qed

theorem joiner_inner_join_witness:
  "list_all (\<lambda>df. distinct (map fst df)
               \<and> fst ` set df = fst ` set [(2::int, F64 ''-12.345''), (1, F64 ''0.5'')])
     [[(2, F64 ''-12.345''), (1, F64 ''0.5'')], [(1, F64 ''1.5''), (2, F64 ''2.5'')],
      [(1, F64 ''3.5''), (2, F64 ''4.5'')], [(2, F64 ''5.5''), (1, F64 ''6.5'')],
      [(1, F64 ''7.5''), (2, F64 ''8.5'')], [(1, F64 ''9.5''), (2, F64 ''0.25'')]]
   \<and> combined_data [[(2, F64 ''-12.345''), (1, F64 ''0.5'')], [(1, F64 ''1.5''), (2, F64 ''2.5'')],
                     [(1, F64 ''3.5''), (2, F64 ''4.5'')], [(2, F64 ''5.5''), (1, F64 ''6.5'')],
                     [(1, F64 ''7.5''), (2, F64 ''8.5'')], [(1, F64 ''9.5''), (2, F64 ''0.25'')]]
     = Inr [(2, [F64 ''-12.345'', F64 ''2.5'', F64 ''4.5'', F64 ''5.5'', F64 ''8.5'', F64 ''0.25'']),
            (1, [F64 ''0.5'', F64 ''1.5'', F64 ''3.5'', F64 ''6.5'', F64 ''7.5'', F64 ''9.5''])]
   \<and> card (fst ` set [(2::int, F64 ''-12.345''), (1, F64 ''0.5'')]) = 2"
proof -
  let ?xx = "[(2::int, F64 ''-12.345''), (1, F64 ''0.5'')]"
  let ?yy = "[(1::int, F64 ''1.5''), (2, F64 ''2.5'')]"
  let ?zz = "[(1::int, F64 ''3.5''), (2, F64 ''4.5'')]"
  let ?xy = "[(2::int, F64 ''5.5''), (1, F64 ''6.5'')]"
  let ?yz = "[(1::int, F64 ''7.5''), (2, F64 ''8.5'')]"
  let ?zx = "[(1::int, F64 ''9.5''), (2, F64 ''0.25'')]"
  let ?dfs = "[?xx, ?yy, ?zz, ?xy, ?yz, ?zx]"
  have h: "\<forall>df \<in> set ?dfs. distinct (map fst df)" by simp
  have same: "\<forall>df \<in> set ?dfs. fst ` set df = fst ` set ?xx" by auto
  have out: "combined_data ?dfs
     = Inr [(2, [F64 ''-12.345'', F64 ''2.5'', F64 ''4.5'', F64 ''5.5'', F64 ''8.5'', F64 ''0.25'']),
            (1, [F64 ''0.5'', F64 ''1.5'', F64 ''3.5'', F64 ''6.5'', F64 ''7.5'', F64 ''9.5''])]"
    by (simp add: combined_data_def merge_def)
  from joiner_inner_join [of ?xx ?yy ?zz ?xy ?yz ?zx]
  obtain rows where rows: "combined_data ?dfs = Inr rows"
    and "set (map fst rows) = {k. \<forall>df \<in> set ?dfs. k \<in> fst ` set df}"
    and "map fst rows =
         concat (map (\<lambda>k. replicate
                            (prod_list (map (\<lambda>df. length (filter (\<lambda>row. fst row = k) df)) ?dfs)) k)
                     (map fst ?xx))"
    and "\<forall>row \<in> set rows. length (snd row) = 6
           \<and> (\<forall>i < 6. (fst row, snd row ! i) \<in> set (?dfs ! i))"
    and imp: "(\<forall>df \<in> set ?dfs. distinct (map fst df)) \<longrightarrow>
          map fst rows = filter (\<lambda>k. \<forall>df \<in> set ?dfs. k \<in> fst ` set df) (map fst ?xx)
          \<and> ((\<forall>df \<in> set ?dfs. fst ` set df = fst ` set ?xx)
                \<longrightarrow> length rows = card (fst ` set ?xx))"
    by (elim exE conjE)
  from imp h same have "length rows = card (fst ` set ?xx)" by blast
  with rows out have "card (fst ` set ?xx) = 2" by simp
  with h same out show ?thesis
    unfolding list_all_iff by (simp only: simp_thms ball_conj_distrib)
qed

lemma data_frames_shape:
  "data_frames read = Inr dfs \<Longrightarrow>
     \<exists>x y xy xz. dfs = [x, y, y, xy, xz, xz]
       \<and> read ''StressE_TensorY_Ambient_MPa.fem'' = Inr y
       \<and> read ''StressE_TensorXZ_c8_Ambient_MPa.fem'' = Inr xz"
  by (auto simp: data_frames_def file_names_def components_def split: sum.splits)

lemma rows_of_combined_data:
  assumes "combined_data dfs = Inr rows" and "row \<in> set rows"
  shows "length (snd row) = length dfs
    \<and> (\<forall>i < length dfs. (fst row, snd row ! i) \<in> set (dfs ! i))"
proof -
  from assms(1) obtain df0 rest where dfs: "dfs = df0 # rest"
    and rows: "rows = foldl merge (map (\<lambda>(elem, _). (elem, [])) df0) dfs"
    by (auto simp: combined_data_def split: list.splits)
  from assms(2) rows
  have "(fst row, snd row) \<in> set (foldl merge (map (\<lambda>(elem, _). (elem, [])) df0) dfs)"
    by simp
  from rows_foldl_merge [OF this] obtain comps where
    c: "(fst row, comps) \<in> set (map (\<lambda>(elem, _). (elem, [])) df0)" and
    pre: "take (length comps) (snd row) = comps" and
    len: "length (snd row) = length comps + length dfs" and
    nth: "\<forall>i < length dfs. (fst row, snd row ! (length comps + i)) \<in> set (dfs ! i)"
    by (elim exE conjE)
  from c have "comps = []" by (rule elem_column_comps)
  with len nth show ?thesis by simp
qed

lemma six_values: "length vs = 6 \<Longrightarrow> \<exists>a b c d e f. vs = [a, b, c, d, e, f]"
  by (auto simp: length_Suc_conv eval_nat_numeral)

lemma value_line_cells:
  assumes "value_line ops (k, vals) = Inr line"
  shows "\<exists>cells. map (format_field ops) vals = map Inr cells
     \<and> line = replicate 8 (CHR '' '') @ ''VALUE   '' @ concat cells"
proof -
  have p: "ljust 8 [] = replicate 8 (CHR '' '')" "ljust 8 ''VALUE'' = ''VALUE   ''"
    by (simp_all add: ljust_def eval_nat_numeral)
  from assms obtain t where t: "concat_fields (map (format_field ops) vals) = Inr t"
    and line: "line = replicate 8 (CHR '' '') @ ''VALUE   '' @ t"
    by (auto simp: value_line_def p split: sum.splits)
  from concat_fields_result [OF t] obtain cells where
    "map (format_field ops) vals = map Inr cells" "t = concat cells"
    by blast
  with line show ?thesis by blast
qed

lemma series_values_shared:
  "series_values astype [a, b, b, d, e, e] ! 2 = series_values astype [a, b, b, d, e, e] ! 1
   \<and> series_values astype [a, b, b, d, e, e] ! 5 = series_values astype [a, b, b, d, e, e] ! 4
   \<and> length (series_values astype [a, b, b, d, e, e]) = 6"
  by (simp add: series_values_def split: dtype.splits)

lemma float_line_fields:
  assumes "length fa = 8" "length fb = 8" "length fd = 8" "length fe = 8"
  shows "take 8 (drop 32 (replicate 8 (CHR '' '') @ ''VALUE   '' @ concat [fa, fb, fb, fd, fe, fe]))
       = take 8 (drop 24 (replicate 8 (CHR '' '') @ ''VALUE   '' @ concat [fa, fb, fb, fd, fe, fe]))
     \<and> take 8 (drop 56 (replicate 8 (CHR '' '') @ ''VALUE   '' @ concat [fa, fb, fb, fd, fe, fe]))
       = take 8 (drop 48 (replicate 8 (CHR '' '') @ ''VALUE   '' @ concat [fa, fb, fb, fd, fe, fe]))"
  using assms by simp

text \<open>
  Claim C9, as stated for every emitted VALUE line, fails when an element identifier
  repeats within the YY file: the merge pairs every YY row with every ZZ row of that
  identifier, and the second record below has the YY field \<open>2.0\<close> and the ZZ field
  \<open>3.0\<close>.
\<close>

theorem shared_files_counterexample:
  "data_frames (\<lambda>file. Inr (if file = ''StressE_TensorY_Ambient_MPa.fem''
                            then [(7, F64 ''2.0''), (7, F64 ''3.0'')] else [(7, F64 ''1.0'')]))
     = Inr [[(7, F64 ''1.0'')], [(7, F64 ''2.0''), (7, F64 ''3.0'')],
            [(7, F64 ''2.0''), (7, F64 ''3.0'')],
            [(7, F64 ''1.0'')], [(7, F64 ''1.0'')], [(7, F64 ''1.0'')]]
   \<and> combined_data [[(7, F64 ''1.0'')], [(7, F64 ''2.0''), (7, F64 ''3.0'')],
                     [(7, F64 ''2.0''), (7, F64 ''3.0'')],
                     [(7, F64 ''1.0'')], [(7, F64 ''1.0'')], [(7, F64 ''1.0'')]]
     = Inr [(7, [F64 ''1.0'', F64 ''2.0'', F64 ''2.0'', F64 ''1.0'', F64 ''1.0'', F64 ''1.0'']),
            (7, [F64 ''1.0'', F64 ''2.0'', F64 ''3.0'', F64 ''1.0'', F64 ''1.0'', F64 ''1.0'']),
            (7, [F64 ''1.0'', F64 ''3.0'', F64 ''2.0'', F64 ''1.0'', F64 ''1.0'', F64 ''1.0'']),
            (7, [F64 ''1.0'', F64 ''3.0'', F64 ''3.0'', F64 ''1.0'', F64 ''1.0'', F64 ''1.0''])]
   \<and> value_line literal_ops
        (row_values literal_astype
           (7, [F64 ''1.0'', F64 ''2.0'', F64 ''3.0'', F64 ''1.0'', F64 ''1.0'', F64 ''1.0'']))
     = Inr ''        VALUE        1.0     2.0     3.0     1.0     1.0     1.0''
   \<and> take 8 (drop 32 ''        VALUE        1.0     2.0     3.0     1.0     1.0     1.0'')
     \<noteq> take 8 (drop 24 ''        VALUE        1.0     2.0     3.0     1.0     1.0     1.0'')"
proof -
  have d: "data_frames (\<lambda>file. Inr (if file = ''StressE_TensorY_Ambient_MPa.fem''
                            then [(7::int, F64 ''2.0''), (7, F64 ''3.0'')] else [(7, F64 ''1.0'')]))
     = Inr [[(7, F64 ''1.0'')], [(7, F64 ''2.0''), (7, F64 ''3.0'')],
            [(7, F64 ''2.0''), (7, F64 ''3.0'')],
            [(7, F64 ''1.0'')], [(7, F64 ''1.0'')], [(7, F64 ''1.0'')]]"
    by (simp add: data_frames_def file_names_def components_def)
  have c: "combined_data [[(7::int, F64 ''1.0'')], [(7, F64 ''2.0''), (7, F64 ''3.0'')],
                     [(7, F64 ''2.0''), (7, F64 ''3.0'')],
                     [(7, F64 ''1.0'')], [(7, F64 ''1.0'')], [(7, F64 ''1.0'')]]
     = Inr [(7, [F64 ''1.0'', F64 ''2.0'', F64 ''2.0'', F64 ''1.0'', F64 ''1.0'', F64 ''1.0'']),
            (7, [F64 ''1.0'', F64 ''2.0'', F64 ''3.0'', F64 ''1.0'', F64 ''1.0'', F64 ''1.0'']),
            (7, [F64 ''1.0'', F64 ''3.0'', F64 ''2.0'', F64 ''1.0'', F64 ''1.0'', F64 ''1.0'']),
            (7, [F64 ''1.0'', F64 ''3.0'', F64 ''3.0'', F64 ''1.0'', F64 ''1.0'', F64 ''1.0''])]"
    by (simp add: combined_data_def merge_def)
  have t: "row_dtype [F64 ''1.0'', F64 ''2.0'', F64 ''3.0'', F64 ''1.0'', F64 ''1.0'', F64 ''1.0'']
             = Float64"
    by (simp add: row_dtype_def)
  have v: "value_line literal_ops
        (row_values literal_astype
           (7, [F64 ''1.0'', F64 ''2.0'', F64 ''3.0'', F64 ''1.0'', F64 ''1.0'', F64 ''1.0'']))
     = Inr ''        VALUE        1.0     2.0     3.0     1.0     1.0     1.0''"
    unfolding row_values_def snd_conv value_line_float [OF t]
    by (simp add: literal_ops_def rjust_def eval_nat_numeral)
  have n: "take 8 (drop 32 ''        VALUE        1.0     2.0     3.0     1.0     1.0     1.0'')
     \<noteq> take 8 (drop 24 ''        VALUE        1.0     2.0     3.0     1.0     1.0     1.0'')"
    by (simp add: eval_nat_numeral)
  from d c v n show ?thesis by (simp only: simp_thms)
qed

text \<open>
  Claim C9, amended.  The third file name is the second (the YY file is read again for
  ZZ) and the sixth is the fifth (the YZ file is read again for ZX), so the third frame
  equals the second and the sixth the fifth.  When no element identifier repeats
  within the YY file nor within the YZ file, every record has equal YY and ZZ values
  and equal YZ and ZX values, and every VALUE line that is emitted is made of the two
  prefix fields and six fields of which the ZZ field equals the YY field and the ZX
  field equals the YZ field.  For a \<open>float64\<close> row the VALUE line is emitted, and its
  ZZ field (columns 33 to 40) equals its YY field (columns 25 to 32) and its ZX field
  (columns 57 to 64) equals its YZ field (columns 49 to 56).
\<close>

theorem shared_files_equal_fields:
  assumes "data_frames read = Inr dfs" and "combined_data dfs = Inr rows"
    and "row \<in> set rows"
    and "distinct (map fst (dfs ! 1))" and "distinct (map fst (dfs ! 4))"
  shows "file_names ! 2 = file_names ! 1 \<and> file_names ! 5 = file_names ! 4
    \<and> dfs ! 2 = dfs ! 1 \<and> dfs ! 5 = dfs ! 4
    \<and> snd row ! 2 = snd row ! 1 \<and> snd row ! 5 = snd row ! 4
    \<and> (\<forall>line. value_line ops (row_values astype row) = Inr line \<longrightarrow>
         (\<exists>cells. map (format_field ops) (series_values astype (snd row)) = map Inr cells
            \<and> length cells = 6
            \<and> line = replicate 8 (CHR '' '') @ ''VALUE   '' @ concat cells
            \<and> cells ! 2 = cells ! 1 \<and> cells ! 5 = cells ! 4))
    \<and> (row_dtype (snd row) = Float64 \<longrightarrow>
         (\<exists>line. value_line ops (row_values astype row) = Inr line
            \<and> take 8 (drop 32 line) = take 8 (drop 24 line)
            \<and> take 8 (drop 56 line) = take 8 (drop 48 line)))"
proof -
  from data_frames_shape [OF assms(1)] obtain x y xy xz where
    dfs: "dfs = [x, y, y, xy, xz, xz]" by blast
  from rows_of_combined_data [OF assms(2,3)]
  have len: "length (snd row) = 6"
    and mem: "\<forall>i < 6. (fst row, snd row ! i) \<in> set (dfs ! i)"
    by (simp_all add: dfs)
  from six_values [OF len] obtain a b c d e f where vs: "snd row = [a, b, c, d, e, f]"
    by blast
  have dy: "distinct (map fst y)" and dxz: "distinct (map fst xz)"
    using assms(4,5) by (simp_all add: dfs)
  have "(fst row, b) \<in> set y" "(fst row, c) \<in> set y"
    using mem [rule_format, of 1] mem [rule_format, of 2] by (simp_all add: dfs vs)
  with dy have bc: "c = b" by (metis eq_key_imp_eq_value)
  have "(fst row, e) \<in> set xz" "(fst row, f) \<in> set xz"
    using mem [rule_format, of 4] mem [rule_format, of 5] by (simp_all add: dfs vs)
  with dxz have ef: "f = e" by (metis eq_key_imp_eq_value)
  have comps: "snd row = [a, b, b, d, e, e]"
    using vs bc ef by simp
  let ?vals = "series_values astype (snd row)"
  have shared: "?vals ! 2 = ?vals ! 1" "?vals ! 5 = ?vals ! 4" "length ?vals = 6"
    unfolding comps using series_values_shared [of astype a b d e] by simp_all
  have every: "\<exists>cells. map (format_field ops) ?vals = map Inr cells
            \<and> length cells = 6
            \<and> line = replicate 8 (CHR '' '') @ ''VALUE   '' @ concat cells
            \<and> cells ! 2 = cells ! 1 \<and> cells ! 5 = cells ! 4"
    if "value_line ops (row_values astype row) = Inr line" for line
  proof -
    from that have "value_line ops (elem_int row, ?vals) = Inr line"
      by (simp add: row_values_def)
    from value_line_cells [OF this] obtain cells where
      cells: "map (format_field ops) ?vals = map Inr cells" and
      line: "line = replicate 8 (CHR '' '') @ ''VALUE   '' @ concat cells"
      by blast
    from cells have l: "length cells = 6"
      using shared(3) by (metis length_map)
    have nth: "format_field ops (?vals ! i) = Inr (cells ! i)" if "i < 6" for i
      using arg_cong [OF cells, of "\<lambda>xs. xs ! i"] that l shared(3) by simp
    have "Inr (cells ! 2) = (Inr (cells ! 1) :: error + string)"
      using nth [of 2] nth [of 1] shared(1) by simp
    moreover have "Inr (cells ! 5) = (Inr (cells ! 4) :: error + string)"
      using nth [of 5] nth [of 4] shared(2) by simp
    ultimately show ?thesis using cells l line by simp
  qed
  have float: "\<exists>line. value_line ops (row_values astype row) = Inr line
            \<and> take 8 (drop 32 line) = take 8 (drop 24 line)
            \<and> take 8 (drop 56 line) = take 8 (drop 48 line)"
    if t: "row_dtype (snd row) = Float64"
  proof -
    let ?F = "\<lambda>c. case c of I64 i \<Rightarrow> take 8 (rjust 8 (rendering ops (astype i)))
                          | F64 x \<Rightarrow> take 8 (rjust 8 (rendering ops x))
                          | Obj v \<Rightarrow> []"
    have line: "value_line ops (row_values astype row) =
        Inr (replicate 8 (CHR '' '') @ ''VALUE   '' @ concat [?F a, ?F b, ?F b, ?F d, ?F e, ?F e])"
      unfolding row_values_def value_line_float [OF t] by (simp add: comps)
    have "length (?F c) = 8" if "c \<in> set (snd row)" for c
      using float_row_cells [OF t that] by (rule length_float_field)
    then have "length (?F a) = 8" "length (?F b) = 8" "length (?F d) = 8" "length (?F e) = 8"
      by (simp_all add: comps)
    from float_line_fields [OF this] line show ?thesis by blast
  qed
  show ?thesis
    using every float by (simp add: file_names_def dfs comps)
qed

theorem shared_files_equal_fields_witness:
  "data_frames (\<lambda>file. Inr (if file = ''StressE_TensorY_Ambient_MPa.fem'' then [(7, F64 ''2.0'')]
                            else if file = ''StressE_TensorXZ_c8_Ambient_MPa.fem'' then [(7, F64 ''3.0'')]
                            else [(7, F64 ''1.0'')]))
     = Inr [[(7, F64 ''1.0'')], [(7, F64 ''2.0'')], [(7, F64 ''2.0'')],
            [(7, F64 ''1.0'')], [(7, F64 ''3.0'')], [(7, F64 ''3.0'')]]
   \<and> combined_data [[(7, F64 ''1.0'')], [(7, F64 ''2.0'')], [(7, F64 ''2.0'')],
                     [(7, F64 ''1.0'')], [(7, F64 ''3.0'')], [(7, F64 ''3.0'')]]
     = Inr [(7, [F64 ''1.0'', F64 ''2.0'', F64 ''2.0'', F64 ''1.0'', F64 ''3.0'', F64 ''3.0''])]
   \<and> distinct (map fst [(7::int, F64 ''2.0'')]) \<and> distinct (map fst [(7::int, F64 ''3.0'')])
   \<and> row_dtype [F64 ''1.0'', F64 ''2.0'', F64 ''2.0'', F64 ''1.0'', F64 ''3.0'', F64 ''3.0'']
       = Float64
   \<and> value_line literal_ops
        (row_values literal_astype
           (7, [F64 ''1.0'', F64 ''2.0'', F64 ''2.0'', F64 ''1.0'', F64 ''3.0'', F64 ''3.0'']))
     = Inr ''        VALUE        1.0     2.0     2.0     1.0     3.0     3.0''"
proof -
  let ?read = "\<lambda>file. Inr (if file = ''StressE_TensorY_Ambient_MPa.fem'' then [(7::int, F64 ''2.0'')]
                            else if file = ''StressE_TensorXZ_c8_Ambient_MPa.fem'' then [(7, F64 ''3.0'')]
                            else [(7, F64 ''1.0'')]) :: error + string frame"
  let ?dfs = "[[(7::int, F64 ''1.0'')], [(7, F64 ''2.0'')], [(7, F64 ''2.0'')],
               [(7, F64 ''1.0'')], [(7, F64 ''3.0'')], [(7, F64 ''3.0'')]]"
  let ?comps = "[F64 ''1.0'', F64 ''2.0'', F64 ''2.0'', F64 ''1.0'', F64 ''3.0'', F64 ''3.0'']"
  let ?row = "(7::int, ?comps)"
  have d: "data_frames ?read = Inr ?dfs"
    by (simp add: data_frames_def file_names_def components_def)
  have c: "combined_data ?dfs = Inr [?row]"
    by (simp add: combined_data_def merge_def)
  have r: "?row \<in> set [?row]" by simp
  have d1: "distinct (map fst (?dfs ! 1))" and d4: "distinct (map fst (?dfs ! 4))"
    by simp_all
  have t: "row_dtype ?comps = Float64" by (simp add: row_dtype_def)
  have v: "value_line literal_ops (row_values literal_astype ?row)
     = Inr ''        VALUE        1.0     2.0     2.0     1.0     3.0     3.0''"
    unfolding row_values_def snd_conv value_line_float [OF t]
    by (simp add: literal_ops_def rjust_def eval_nat_numeral)
  from shared_files_equal_fields [OF d c r d1 d4, of literal_ops literal_astype] d c t v
  show ?thesis by simp
qed

section \<open>The reader\<close>
















end
